theory Spec2Isabelle
  imports Main "HOL-Library.Sublist" "HOL-Library.Char_ord" "HOL-Library.List_Lexorder"
begin

section \<open>Strings as Python sees them\<close>

text \<open>
  The scanner \<^verbatim>\<open>scan-deps.py\<close> works on Python \<^verbatim>\<open>str\<close> values. They are modelled as
  \<^typ>\<open>string\<close>, one \<^typ>\<open>char\<close> per code point, for the code points below 256. The
  string methods the script calls are written out below with the behaviour Python gives
  them on that range.
\<close>

definition is_space :: "char \<Rightarrow> bool" where
  \<comment> \<open>\<^verbatim>\<open>str.isspace\<close> on one character: TAB, LF, VT, FF, CR, FS, GS, RS, US, space, NEL, NBSP.\<close>
  "is_space c \<longleftrightarrow> c \<in> {CHR 0x09, CHR 0x0A, CHR 0x0B, CHR 0x0C, CHR 0x0D,
                         CHR 0x1C, CHR 0x1D, CHR 0x1E, CHR 0x1F, CHR 0x20, CHR 0x85, CHR 0xA0}"

definition strip :: "string \<Rightarrow> string" where
  \<comment> \<open>\<^verbatim>\<open>s.strip()\<close>\<close>
  "strip s = rev (dropWhile is_space (rev (dropWhile is_space s)))"

fun split_ws_aux :: "string \<Rightarrow> string \<Rightarrow> string list" where
  "split_ws_aux cur [] = (if cur = [] then [] else [cur])"
| "split_ws_aux cur (c # cs) =
     (if is_space c then (if cur = [] then split_ws_aux [] cs else cur # split_ws_aux [] cs)
      else split_ws_aux (cur @ [c]) cs)"

definition split_ws :: "string \<Rightarrow> string list" where
  \<comment> \<open>\<^verbatim>\<open>s.split()\<close>: the maximal runs of non-whitespace characters\<close>
  "split_ws s = split_ws_aux [] s"

fun split_on :: "char \<Rightarrow> string \<Rightarrow> string list" where
  \<comment> \<open>\<^verbatim>\<open>s.split(sep)\<close> for a one-character separator: never empty, keeps empty pieces\<close>
  "split_on sep [] = [[]]"
| "split_on sep (c # cs) =
     (if c = sep then [] # split_on sep cs
      else (c # hd (split_on sep cs)) # tl (split_on sep cs))"

fun join :: "string \<Rightarrow> string list \<Rightarrow> string" where
  \<comment> \<open>\<^verbatim>\<open>sep.join(xs)\<close>\<close>
  "join sep [] = []"
| "join sep [x] = x"
| "join sep (x # y # ys) = x @ sep @ join sep (y # ys)"

definition startswith :: "string \<Rightarrow> string \<Rightarrow> bool" where
  \<comment> \<open>\<^verbatim>\<open>s.startswith(p)\<close>\<close>
  "startswith s p \<longleftrightarrow> prefix p s"

definition endswith :: "string \<Rightarrow> string \<Rightarrow> bool" where
  \<comment> \<open>\<^verbatim>\<open>s.endswith(p)\<close>\<close>
  "endswith s p \<longleftrightarrow> suffix p s"

section \<open>Files, reads and diagnostics\<close>

text \<open>
  A path found by \<^verbatim>\<open>directory.rglob("*.hoon")\<close> is used through three attributes only:
  the components of its parent directory relative to the scanned directory, its
  \<^verbatim>\<open>stem\<close> and its \<^verbatim>\<open>name\<close>.
\<close>

record hoon_path =
  parent_rel :: "string list"
  stem :: string
  name :: string

text \<open>
  Reading a file line by line either delivers the next line or raises. A read is the list
  of these events: \<open>[ReadError]\<close> is a file that cannot be opened, and a \<open>ReadError\<close> after
  some lines is a failure (for instance a decoding error) met while iterating.
\<close>

datatype read_event = Line string | ReadError

type_synonym file_system = "hoon_path \<Rightarrow> read_event list"

text \<open>Every \<^verbatim>\<open>print(..., file=sys.stderr)\<close> of the script is a diagnostic returned by the model.\<close>

datatype diagnostic =
    Could_not_read hoon_path
  | Ambiguous string string "string list"
  | Could_not_resolve string string

type_synonym file_record = "hoon_path \<times> string \<times> string"

text \<open>
  A Python \<^verbatim>\<open>dict\<close> iterates in insertion order, and storing under a key that is present
  keeps the key's position: an association list with \<open>dict_set\<close>.
\<close>

type_synonym file_map = "(string \<times> file_record) list"

type_synonym graph = "(string \<times> string list) list"

fun dict_set :: "('k \<times> 'v) list \<Rightarrow> 'k \<Rightarrow> 'v \<Rightarrow> ('k \<times> 'v) list" where
  "dict_set [] k v = [(k, v)]"
| "dict_set ((k', v') # kvs) k v =
     (if k' = k then (k, v) # kvs else (k', v') # dict_set kvs k v)"

definition keys :: "('k \<times> 'v) list \<Rightarrow> 'k list" where
  "keys d = map fst d"

definition in_dict :: "'k \<Rightarrow> ('k \<times> 'v) list \<Rightarrow> bool" where
  \<comment> \<open>\<^verbatim>\<open>k in d\<close>\<close>
  "in_dict k d \<longleftrightarrow> k \<in> set (keys d)"

section \<open>get_dependencies\<close>

definition parse_specifier :: "string \<Rightarrow> string list" where
  \<comment> \<open>the body of \<^verbatim>\<open>for d in dep_str.split(',')\<close>: the tokens appended for one \<open>d\<close>\<close>
  "parse_specifier d0 =
     (let d1 = strip d0;
          d2 = (if startswith d1 ''*'' then tl d1 else d1);
          d3 = (if CHR ''='' \<in> set d2 then strip (last (split_on CHR ''='' d2)) else d2)
      in if d3 \<noteq> [] then [d3] else [])"

definition named_import :: "string list \<Rightarrow> string list" where
  \<comment> \<open>the branch for the prefixes \<^verbatim>\<open>/+\<close>, \<^verbatim>\<open>/-\<close>, \<^verbatim>\<open>/#\<close>\<close>
  "named_import parts =
     (let dep_str = join '' '' (tl parts)
      in concat (map parse_specifier (split_on CHR '','' dep_str)))"

definition path_import :: "string list \<Rightarrow> string list" where
  \<comment> \<open>the branch for the prefix \<^verbatim>\<open>/=\<close>\<close>
  "path_import parts =
     (if length parts \<ge> 3 then
        (let path0 = parts ! 2;
             path1 = (if startswith path0 ''/'' then tl path0 else path0)
         in if path1 \<noteq> [] then [path1] else [])
      else [])"

datatype line_step = Continue "string list" | Break

definition process_line :: "string \<Rightarrow> line_step" where
  \<comment> \<open>one pass through the body of \<^verbatim>\<open>for line in f\<close>: the tokens appended, or \<^verbatim>\<open>break\<close>\<close>
  "process_line raw =
     (let line = strip raw in
      if line = [] then Continue []
      else if \<not> (startswith line ''/'' \<or> startswith line ''::'') then Break
      else if startswith line ''::'' then Continue []
      else
        (let parts = split_ws line in
         if parts = [] then Continue []
         else
           (let pfx = hd parts in
            if pfx \<in> {''/+'', ''/-'', ''/#''} then Continue (named_import parts)
            else if pfx = ''/='' then Continue (path_import parts)
            else Continue [])))"

fun scan_lines :: "read_event list \<Rightarrow> string list \<times> bool" where
  \<comment> \<open>the loop inside \<^verbatim>\<open>try\<close>: the tokens collected, and whether an exception ended it\<close>
  "scan_lines [] = ([], False)"
| "scan_lines (ReadError # _) = ([], True)"
| "scan_lines (Line raw # rest) =
     (case process_line raw of
        Break \<Rightarrow> ([], False)
      | Continue ts \<Rightarrow> (case scan_lines rest of (deps, failed) \<Rightarrow> (ts @ deps, failed)))"

definition get_dependencies :: "file_system \<Rightarrow> hoon_path \<Rightarrow> string list \<times> diagnostic list" where
  "get_dependencies fs file_path =
     (case scan_lines (fs file_path) of
        (deps, failed) \<Rightarrow> (deps, if failed then [Could_not_read file_path] else []))"

section \<open>find_hoon_files\<close>

definition rel_dir_str :: "hoon_path \<Rightarrow> string" where
  \<comment> \<open>\<^verbatim>\<open>str(rel_dir)\<close> with \<^verbatim>\<open>/\<close> as separator, and the empty string for the scanned directory itself\<close>
  "rel_dir_str hoon_file = join ''/'' (parent_rel hoon_file)"

definition package_key :: "hoon_path \<Rightarrow> string" where
  "package_key hoon_file =
     (if rel_dir_str hoon_file \<noteq> [] then rel_dir_str hoon_file @ ''/'' @ stem hoon_file
      else stem hoon_file)"

definition install_path :: "string \<Rightarrow> hoon_path \<Rightarrow> string" where
  "install_path scan_dir_name hoon_file =
     (if rel_dir_str hoon_file \<noteq> [] then scan_dir_name @ ''/'' @ rel_dir_str hoon_file
      else scan_dir_name)"

fun find_loop :: "string \<Rightarrow> hoon_path list \<Rightarrow> file_map \<Rightarrow> file_map" where
  "find_loop scan_dir_name [] files = files"
| "find_loop scan_dir_name (hoon_file # others) files =
     find_loop scan_dir_name others
       (dict_set files (package_key hoon_file)
          (hoon_file, install_path scan_dir_name hoon_file, name hoon_file))"

definition find_hoon_files :: "string \<Rightarrow> hoon_path list \<Rightarrow> file_map" where
  \<comment> \<open>the directory is given by its name and by the paths \<^verbatim>\<open>rglob\<close> yields, in the order it yields them\<close>
  "find_hoon_files scan_dir_name rglob = find_loop scan_dir_name rglob []"

section \<open>resolve_dependency\<close>

definition same_dir_key :: "string \<Rightarrow> string \<Rightarrow> string" where
  "same_dir_key current_file_dir dep_name = current_file_dir @ ''/'' @ dep_name"

definition sibling_key :: "string \<Rightarrow> string \<Rightarrow> string option" where
  \<comment> \<open>the key tried by the parent-directory rule, when the directory has more than one part\<close>
  "sibling_key current_file_dir dep_name =
     (let parts = split_on CHR ''/'' current_file_dir in
      if length parts > 1 then Some (join ''/'' (butlast parts) @ ''/'' @ dep_name) else None)"

definition matches :: "string \<Rightarrow> file_map \<Rightarrow> string list" where
  "matches dep_name files =
     filter (\<lambda>k. endswith k (''/'' @ dep_name) \<or> k = dep_name) (keys files)"

definition last_resort :: "string \<Rightarrow> string \<Rightarrow> file_map \<Rightarrow> string option \<times> diagnostic list" where
  \<comment> \<open>"Last resort: search all files for matching basename"\<close>
  "last_resort dep_name current_file_dir files =
     (let ms = matches dep_name files in
      if length ms = 1 then (Some (hd ms), [])
      else if length ms > 1 then (Some (hd ms), [Ambiguous dep_name current_file_dir ms])
      else (None, []))"

definition resolve_bare :: "string \<Rightarrow> string \<Rightarrow> file_map \<Rightarrow> string option \<times> diagnostic list" where
  \<comment> \<open>\<^verbatim>\<open>resolve_dependency\<close> from "Try same directory first" to its end\<close>
  "resolve_bare dep_name current_file_dir files =
     (if current_file_dir \<noteq> [] \<and> in_dict (same_dir_key current_file_dir dep_name) files
      then (Some (same_dir_key current_file_dir dep_name), [])
      else if in_dict dep_name files then (Some dep_name, [])
      else if current_file_dir \<noteq> [] \<and>
              (case sibling_key current_file_dir dep_name of
                 Some k \<Rightarrow> in_dict k files | None \<Rightarrow> False)
      then (sibling_key current_file_dir dep_name, [])
      else last_resort dep_name current_file_dir files)"

definition resolve_dependency :: "string \<Rightarrow> string \<Rightarrow> file_map \<Rightarrow> string option \<times> diagnostic list" where
  "resolve_dependency dep_name current_file_dir files =
     (if CHR ''/'' \<in> set dep_name then
        (if in_dict dep_name files then (Some dep_name, [])
         else resolve_bare (last (split_on CHR ''/'' dep_name)) current_file_dir files)
      else resolve_bare dep_name current_file_dir files)"

section \<open>build_dependency_graph\<close>

definition strip_scan_dir :: "string \<Rightarrow> string \<Rightarrow> string" where
  \<comment> \<open>the prefix stripping at the head of the inner loop\<close>
  "strip_scan_dir scan_dir_name dep_name =
     (if startswith dep_name (scan_dir_name @ ''/'')
      then drop (length scan_dir_name + 1) dep_name else dep_name)"

fun resolve_deps ::
  "string \<Rightarrow> string \<Rightarrow> string \<Rightarrow> file_map \<Rightarrow> string list \<Rightarrow> string list \<times> diagnostic list" where
  \<comment> \<open>\<^verbatim>\<open>for dep_name in raw_deps\<close>\<close>
  "resolve_deps scan_dir_name full_key file_dir files [] = ([], [])"
| "resolve_deps scan_dir_name full_key file_dir files (d # ds) =
     (let dep_name = strip_scan_dir scan_dir_name d in
      case resolve_dependency dep_name file_dir files of (resolved, w1) \<Rightarrow>
      case resolve_deps scan_dir_name full_key file_dir files ds of (tail, w3) \<Rightarrow>
        (case resolved of
           Some r \<Rightarrow>
             if r \<noteq> [] then (r # tail, w1 @ w3)
             else (tail, w1 @ [Could_not_resolve dep_name full_key] @ w3)
         | None \<Rightarrow> (tail, w1 @ [Could_not_resolve dep_name full_key] @ w3)))"

fun build_loop ::
  "string \<Rightarrow> file_system \<Rightarrow> file_map \<Rightarrow> file_map \<Rightarrow> graph \<Rightarrow> graph \<times> diagnostic list" where
  \<comment> \<open>\<^verbatim>\<open>for full_key, (file_path, file_dir, _) in files.items()\<close>\<close>
  "build_loop scan_dir_name fs files [] graph = (graph, [])"
| "build_loop scan_dir_name fs files ((full_key, (file_path, file_dir, fname)) # items) graph =
     (case get_dependencies fs file_path of (raw_deps, w1) \<Rightarrow>
      case resolve_deps scan_dir_name full_key file_dir files raw_deps of (resolved_deps, w2) \<Rightarrow>
      case build_loop scan_dir_name fs files items (dict_set graph full_key resolved_deps) of
        (g, w3) \<Rightarrow> (g, w1 @ w2 @ w3))"

definition build_dependency_graph ::
  "file_system \<Rightarrow> file_map \<Rightarrow> string \<Rightarrow> graph \<times> diagnostic list" where
  "build_dependency_graph fs files scan_dir_name = build_loop scan_dir_name fs files files []"

section \<open>generate_registry_toml: the package records\<close>

text \<open>
  The manifest text holds one \<^verbatim>\<open>[[package]]\<close> table per entry of the sorted file map. The
  record below is what such a table prints: \<^verbatim>\<open>name\<close>, \<^verbatim>\<open>workspace\<close>, \<^verbatim>\<open>path\<close>, \<^verbatim>\<open>file\<close> and
  \<^verbatim>\<open>dependencies\<close>.
\<close>

record package =
  pkg_name :: string
  pkg_workspace :: string
  pkg_path :: string
  pkg_file :: string
  pkg_dependencies :: "string list"

definition graph_get :: "graph \<Rightarrow> string \<Rightarrow> string list" where
  \<comment> \<open>\<^verbatim>\<open>graph.get(package_key, [])\<close>\<close>
  "graph_get g k = (case map_of g k of Some deps \<Rightarrow> deps | None \<Rightarrow> [])"

definition package_of :: "string \<Rightarrow> graph \<Rightarrow> string \<times> file_record \<Rightarrow> package" where
  "package_of workspace_name g item =
     (case item of (pkey, (_, ipath, hoon_filename)) \<Rightarrow>
        \<lparr> pkg_name = workspace_name @ ''/'' @ pkey,
          pkg_workspace = workspace_name,
          pkg_path = ipath,
          pkg_file = hoon_filename,
          pkg_dependencies = map (\<lambda>d. workspace_name @ ''/'' @ d) (graph_get g pkey) \<rparr>)"

definition package_records :: "string \<Rightarrow> file_map \<Rightarrow> graph \<Rightarrow> package list" where
  \<comment> \<open>the loop over \<^verbatim>\<open>sorted(files.items(), key=lambda x: x[0])\<close>\<close>
  "package_records workspace_name files g =
     map (package_of workspace_name g) (sort_key fst files)"

definition manifest_packages ::
  "string \<Rightarrow> string \<Rightarrow> hoon_path list \<Rightarrow> file_system \<Rightarrow> package list" where
  \<comment> \<open>\<^verbatim>\<open>main\<close>: discovery, graph construction, then the package tables\<close>
  "manifest_packages workspace_name scan_dir_name rglob fs =
     (let files = find_hoon_files scan_dir_name rglob;
          g = fst (build_dependency_graph fs files scan_dir_name)
      in package_records workspace_name files g)"

section \<open>Concrete inputs and the vocabulary of the specification\<close>

definition hoon_at :: "string list \<Rightarrow> string \<Rightarrow> hoon_path" where
  \<comment> \<open>the path of the file \<^verbatim>\<open>s.hoon\<close> in the directory \<^verbatim>\<open>dirs\<close> below the scanned directory\<close>
  "hoon_at dirs s = \<lparr> parent_rel = dirs, stem = s, name = s @ ''.hoon'' \<rparr>"

definition files_on_disk :: "(hoon_path \<times> read_event list) list \<Rightarrow> file_system" where
  \<comment> \<open>a file system given as a table; a path outside the table cannot be opened\<close>
  "files_on_disk tbl p = (case map_of tbl p of Some evs \<Rightarrow> evs | None \<Rightarrow> [ReadError])"

text \<open>
  The specification sorts header lines into blank lines, comments and import directives.
  The three predicates follow its words; \<open>process_line\<close> above follows the code.
\<close>

definition is_blank :: "string \<Rightarrow> bool" where
  "is_blank raw \<longleftrightarrow> strip raw = []"

definition is_comment :: "string \<Rightarrow> bool" where
  "is_comment raw \<longleftrightarrow> startswith (strip raw) ''::''"

definition is_import_directive :: "string \<Rightarrow> bool" where
  "is_import_directive raw \<longleftrightarrow>
     (case split_ws (strip raw) of [] \<Rightarrow> False | w # _ \<Rightarrow> w \<in> {''/+'', ''/-'', ''/#'', ''/=''})"

definition spec_token :: "string \<Rightarrow> string list" where
  \<comment> \<open>the token the specification gives for one specifier of a named import: the wildcard
      marker stripped, the alias kept for an assignment form, otherwise the specifier
      trimmed of whitespace; an empty token is dropped\<close>
  "spec_token d =
     (let s = strip d;
          u = (if startswith s ''*'' then tl s else s);
          t = (if CHR ''='' \<in> set u then strip (last (split_on CHR ''='' u)) else strip u)
      in if t \<noteq> [] then [t] else [])"

text \<open>Three small trees, each with the content of its files, used as concrete inputs.\<close>

definition tree_same_dir :: "hoon_path list" where
  \<comment> \<open>\<^verbatim>\<open>a/x.hoon\<close>, \<^verbatim>\<open>a/y.hoon\<close> and \<^verbatim>\<open>y.hoon\<close>; \<^verbatim>\<open>a/x.hoon\<close> imports \<^verbatim>\<open>y\<close>\<close>
  "tree_same_dir = [hoon_at [''a''] ''x'', hoon_at [''a''] ''y'', hoon_at [] ''y'']"

definition disk_same_dir :: file_system where
  "disk_same_dir = files_on_disk
     [(hoon_at [''a''] ''x'', [Line ''/+  y'']), (hoon_at [''a''] ''y'', []), (hoon_at [] ''y'', [])]"

definition tree_ambiguous :: "hoon_path list" where
  \<comment> \<open>\<^verbatim>\<open>pkg/dep.hoon\<close>, \<^verbatim>\<open>other/dep.hoon\<close> and \<^verbatim>\<open>main.hoon\<close>; \<^verbatim>\<open>main.hoon\<close> imports \<^verbatim>\<open>dep\<close>\<close>
  "tree_ambiguous = [hoon_at [''pkg''] ''dep'', hoon_at [''other''] ''dep'', hoon_at [] ''main'']"

definition disk_ambiguous :: file_system where
  "disk_ambiguous = files_on_disk
     [(hoon_at [''pkg''] ''dep'', []), (hoon_at [''other''] ''dep'', []),
      (hoon_at [] ''main'', [Line ''/+  dep''])]"

definition tree_path_import :: "hoon_path list" where
  \<comment> \<open>\<^verbatim>\<open>root.hoon\<close> and \<^verbatim>\<open>b/c.hoon\<close>; \<^verbatim>\<open>root.hoon\<close> imports the path \<^verbatim>\<open>/b/c\<close>, and \<^verbatim>\<open>b/c.hoon\<close>
      imports a name that no file has\<close>
  "tree_path_import = [hoon_at [] ''root'', hoon_at [''b''] ''c'']"

definition disk_path_import :: file_system where
  "disk_path_import = files_on_disk
     [(hoon_at [] ''root'', [Line ''/=  c  /b/c'']), (hoon_at [''b''] ''c'', [Line ''/+  nothere''])]"



text \<open>Two abbreviations for statements about the graph builder and the resolver.\<close>

definition edge_of :: "string option \<Rightarrow> string list" where
  \<comment> \<open>what \<^verbatim>\<open>if resolved: resolved_deps.append(resolved)\<close> appends for one result of the resolver\<close>
  "edge_of resolved = (case resolved of Some r \<Rightarrow> if r \<noteq> [] then [r] else [] | None \<Rightarrow> [])"

definition root_or_suffix :: "string \<Rightarrow> string \<Rightarrow> file_map \<Rightarrow> string option \<times> diagnostic list" where
  \<comment> \<open>resolution by the root-level lookup and then the suffix search, and by nothing else\<close>
  "root_or_suffix dep_name current_file_dir files =
     (if in_dict dep_name files then (Some dep_name, [])
      else last_resort dep_name current_file_dir files)"

section \<open>Facts about the string operations\<close>

lemma split_on_not_Nil: "split_on c s \<noteq> []"
  by (induction s) auto

lemma split_on_no_sep: "c \<notin> set s \<Longrightarrow> split_on c s = [s]"
  by (induction s) auto

lemma split_on_append_sep: "c \<notin> set a \<Longrightarrow> split_on c (a @ c # b) = a # split_on c b"
  by (induction a) auto

lemma length_split_on: "length (split_on c s) = Suc (length (filter (\<lambda>x. x = c) s))"
  by (induction s) (auto simp: split_on_not_Nil)

lemma tl_split_on_sep: "c \<in> set s \<Longrightarrow> tl (split_on c s) \<noteq> []"
proof -
  assume "c \<in> set s"
  then have "filter (\<lambda>x. x = c) s \<noteq> []"
    by (simp add: filter_empty_conv)
  then have "length (split_on c s) > 1"
    by (simp add: length_split_on)
  then show ?thesis
    by (cases "split_on c s") auto
qed

lemma last_split_on_Cons:
  "last (split_on c (x # s)) = (if c \<in> set s \<or> x = c then last (split_on c s) else x # s)"
proof (cases "c \<in> set s")
  case True
  then show ?thesis
    by (simp add: split_on_not_Nil tl_split_on_sep last_tl)
next
  case False
  then show ?thesis
    by (simp add: split_on_no_sep)
qed


lemma last_split_on_append: "c \<notin> set b \<Longrightarrow> last (split_on c (a @ c # b)) = b"
proof (induction a)
  case Nil
  then show ?case by (simp add: split_on_no_sep)
next
  case (Cons x a)
  have "last (split_on c ((x # a) @ c # b)) = last (split_on c (a @ c # b))"
    using last_split_on_Cons [of c x "a @ c # b"] by simp
  with Cons show ?case by simp
qed

lemma strip_Nil_or_hd: "strip s = [] \<or> \<not> is_space (hd (strip s))"
proof (cases "strip s = []")
  case True
  then show ?thesis by simp
next
  case False
  define t where "t = dropWhile is_space s"
  have t: "t \<noteq> []"
  proof
    assume e: "t = []"
    have "strip s = rev (dropWhile is_space (rev t))" by (simp add: strip_def t_def)
    with e False show False by simp
  qed
  then have h: "\<not> is_space (hd t)" unfolding t_def by (rule hd_dropWhile)
  have "rev (dropWhile is_space (rev t)) = take (length (rev (dropWhile is_space (rev t)))) t"
    by (metis append_eq_conv_conj rev_append rev_rev_ident takeWhile_dropWhile_id)
  then obtain n where n: "strip s = take n t" unfolding strip_def t_def by blast
  with False have "n \<noteq> 0" by auto
  then have "hd (take n t) = hd t" by (cases n) (auto simp: hd_take)
  with h n show ?thesis by simp
qed

lemma split_ws_aux_hd:
  "\<forall>x\<in>set cur. \<not> is_space x \<Longrightarrow> split_ws_aux cur s = w # ws \<Longrightarrow> cur \<noteq> [] \<or> (s \<noteq> [] \<and> \<not> is_space (hd s)) \<Longrightarrow> prefix w (cur @ s) \<and> prefix cur w"
proof (induction cur s rule: split_ws_aux.induct)
  case (1 cur)
  then show ?case by (auto split: if_splits)
next
  case (2 cur c cs)
  then show ?case
    by (auto split: if_splits dest: append_prefixD)
qed

lemma split_ws_hd_prefix:
  "split_ws s = w # ws \<Longrightarrow> s \<noteq> [] \<Longrightarrow> \<not> is_space (hd s) \<Longrightarrow> prefix w s"
  using split_ws_aux_hd [of "[]" s w ws] by (simp add: split_ws_def)

lemma startswith_slash: "startswith s ''/'' \<longleftrightarrow> (\<exists>t. s = CHR ''/'' # t)"
  by (cases s) (auto simp: startswith_def)

lemma startswith_colons: "startswith s ''::'' \<longleftrightarrow> (\<exists>t. s = CHR '':'' # CHR '':'' # t)"
  by (cases s; cases "tl s") (auto simp: startswith_def)

section \<open>Import extraction\<close>

lemma process_line_Break_iff:
  "process_line raw = Break \<longleftrightarrow>
     strip raw \<noteq> [] \<and> \<not> startswith (strip raw) ''/'' \<and> \<not> startswith (strip raw) ''::''"
  by (auto simp: process_line_def Let_def)

lemma process_line_blank: "strip raw = [] \<Longrightarrow> process_line raw = Continue []"
  by (simp add: process_line_def)

lemma process_line_comment: "startswith (strip raw) ''::'' \<Longrightarrow> process_line raw = Continue []"
  by (auto simp: process_line_def Let_def startswith_colons)

lemma process_line_other:
  assumes "startswith (strip raw) ''/''"
    and "hd (split_ws (strip raw)) \<notin> {''/+'', ''/-'', ''/#'', ''/=''}"
  shows "process_line raw = Continue []"
  using assms by (auto simp: process_line_def Let_def startswith_slash)

lemma scan_lines_skip:
  "process_line raw = Continue [] \<Longrightarrow> scan_lines (pre @ Line raw # post) = scan_lines (pre @ post)"
proof (induction pre)
  case Nil
  then show ?case by (simp split: prod.splits)
next
  case (Cons e pre)
  then show ?case by (cases e) (simp_all split: line_step.splits prod.splits)
qed

lemma scan_lines_break:
  "process_line raw = Break \<Longrightarrow> scan_lines (pre @ Line raw # post) = scan_lines pre"
proof (induction pre)
  case Nil
  then show ?case by simp
next
  case (Cons e pre)
  then show ?case by (cases e) (simp_all split: line_step.splits prod.splits)
qed

lemma scan_lines_all_skipped:
  "\<forall>e\<in>set pre. \<exists>l. e = Line l \<and> process_line l = Continue [] \<Longrightarrow> scan_lines pre = ([], False)"
  by (induction pre) auto

lemma scan_lines_failure:
  "scan_lines (map Line ls @ ReadError # rest) =
     (fst (scan_lines (map Line ls)), \<not> (\<exists>l\<in>set ls. process_line l = Break))"
  by (induction ls) (auto split: line_step.splits prod.splits)

text \<open>
  C10. A header line that starts with \<^verbatim>\<open>/\<close> and whose first word is none of \<^verbatim>\<open>/+\<close>, \<^verbatim>\<open>/-\<close>,
  \<^verbatim>\<open>/#\<close>, \<^verbatim>\<open>/=\<close> (a pragma such as \<^verbatim>\<open>/?  310\<close>) produces no token and does not stop the
  scan: the file yields exactly what it yields with that line deleted, so the import
  directives after it are still extracted.
\<close>

theorem unrecognised_slash_line_is_skipped:
  assumes "startswith (strip raw) ''/''"
    and "hd (split_ws (strip raw)) \<notin> {''/+'', ''/-'', ''/#'', ''/=''}"
    and "fs p = pre @ Line raw # post"
    and "fs' p = pre @ post"
  shows "process_line raw = Continue [] \<and> get_dependencies fs p = get_dependencies fs' p"
proof -
  have skip: "process_line raw = Continue []"
    using assms(1,2) by (rule process_line_other)
  then have "scan_lines (fs p) = scan_lines (fs' p)"
    using assms(3,4) by (simp add: scan_lines_skip)
  with skip show ?thesis
    by (simp add: get_dependencies_def)
qed

theorem unrecognised_slash_line_is_skipped_witness:
  "get_dependencies
     (files_on_disk [(hoon_at [] ''a'', [Line ''/?  310'', Line ''/-  one'', Line ''|%''])])
     (hoon_at [] ''a'') = ([''one''], [])"
proof -
  let ?p = "hoon_at [] ''a''"
  let ?fs = "files_on_disk [(?p, [Line ''/?  310'', Line ''/-  one'', Line ''|%''])]"
  let ?fs' = "files_on_disk [(?p, [Line ''/-  one'', Line ''|%''])]"
  have h1: "startswith (strip ''/?  310'') ''/''"
    by code_simp
  have h2: "hd (split_ws (strip ''/?  310'')) \<notin> {''/+'', ''/-'', ''/#'', ''/=''}"
    by code_simp
  have h3: "?fs ?p = [] @ Line ''/?  310'' # [Line ''/-  one'', Line ''|%'']"
    by (simp add: files_on_disk_def)
  have h4: "?fs' ?p = [] @ [Line ''/-  one'', Line ''|%'']"
    by (simp add: files_on_disk_def)
  have "get_dependencies ?fs ?p = get_dependencies ?fs' ?p"
    using unrecognised_slash_line_is_skipped
      [where raw = "''/?  310''" and fs = ?fs and p = ?p and pre = "[]"
         and post = "[Line ''/-  one'', Line ''|%'']" and fs' = ?fs', OF h1 h2 h3 h4]
    by simp
  moreover have "get_dependencies ?fs' ?p = ([''one''], [])"
    by code_simp
  ultimately show ?thesis by simp
qed

text \<open>
  C4, as stated, fails: the pragma line \<^verbatim>\<open>/?  310\<close> is not blank, not a comment and not an
  import directive, yet the import that follows it is extracted.
\<close>

theorem header_only_counterexample:
  "\<not> is_blank ''/?  310'' \<and> \<not> is_comment ''/?  310'' \<and> \<not> is_import_directive ''/?  310'' \<and>
   fst (get_dependencies
     (files_on_disk [(hoon_at [] ''a'', [Line ''/?  310'', Line ''/+  zeke''])])
     (hoon_at [] ''a'')) = [''zeke'']"
  by code_simp

text \<open>
  C4, amended. The first line that is not blank and starts with neither \<^verbatim>\<open>/\<close> nor \<^verbatim>\<open>::\<close>
  ends the scan: nothing after it is inspected. Consequently a file whose first line that
  is neither blank nor a comment does not start with \<^verbatim>\<open>/\<close> yields no token and no
  diagnostic, whatever follows.
\<close>

theorem header_scan_stops_at_non_slash_line:
  assumes "\<not> is_blank raw" and "\<not> is_comment raw" and "\<not> startswith (strip raw) ''/''"
  shows "scan_lines (pre @ Line raw # post) = scan_lines pre \<and>
         ((\<forall>e\<in>set pre. \<exists>l. e = Line l \<and> (is_blank l \<or> is_comment l)) \<longrightarrow>
          fs p = pre @ Line raw # post \<longrightarrow> get_dependencies fs p = ([], []))"
proof -
  have brk: "process_line raw = Break"
    using assms by (simp add: process_line_Break_iff is_blank_def is_comment_def)
  then have stop: "scan_lines (pre @ Line raw # post) = scan_lines pre"
    by (rule scan_lines_break)
  have "scan_lines pre = ([], False)"
    if "\<forall>e\<in>set pre. \<exists>l. e = Line l \<and> (is_blank l \<or> is_comment l)"
  proof (rule scan_lines_all_skipped)
    show "\<forall>e\<in>set pre. \<exists>l. e = Line l \<and> process_line l = Continue []"
      using that process_line_blank process_line_comment
      by (fastforce simp: is_blank_def is_comment_def)
  qed
  with stop show ?thesis
    by (simp add: get_dependencies_def)
qed

theorem header_scan_stops_at_non_slash_line_witness:
  "get_dependencies
     (files_on_disk [(hoon_at [] ''a'', [Line ''::  header'', Line [], Line ''|%'', Line ''/+  zeke''])])
     (hoon_at [] ''a'') = ([], [])"
proof -
  let ?p = "hoon_at [] ''a''"
  let ?pre = "[Line ''::  header'', Line []]"
  let ?fs = "files_on_disk [(?p, [Line ''::  header'', Line [], Line ''|%'', Line ''/+  zeke''])]"
  have h1: "\<not> is_blank ''|%''" by code_simp
  have h2: "\<not> is_comment ''|%''" by code_simp
  have h3: "\<not> startswith (strip ''|%'') ''/''" by code_simp
  have h4: "\<forall>e\<in>set ?pre. \<exists>l. e = Line l \<and> (is_blank l \<or> is_comment l)"
  proof -
    have "is_comment ''::  header''" by code_simp
    moreover have "is_blank []" by code_simp
    ultimately show ?thesis by simp
  qed
  have h5: "?fs ?p = ?pre @ Line ''|%'' # [Line ''/+  zeke'']"
    by (simp add: files_on_disk_def)
  from header_scan_stops_at_non_slash_line
    [where raw = "''|%''" and pre = ?pre and post = "[Line ''/+  zeke'']" and fs = ?fs and p = ?p,
     OF h1 h2 h3] h4 h5
  show ?thesis by blast
qed

text \<open>
  C5, as stated, fails: a read that raises after a directive has been read returns the
  tokens of that directive, not the empty list.
\<close>

theorem read_failure_counterexample:
  "ReadError \<in> set (files_on_disk [(hoon_at [] ''a'', [Line ''/+  zeke'', ReadError])] (hoon_at [] ''a'')) \<and>
   get_dependencies (files_on_disk [(hoon_at [] ''a'', [Line ''/+  zeke'', ReadError])]) (hoon_at [] ''a'')
     = ([''zeke''], [Could_not_read (hoon_at [] ''a'')])"
  by code_simp

text \<open>
  C5, amended. The extractor returns for every read, with no diagnostic other than the
  warning about that file. When the read raises after the lines \<open>ls\<close>, the result is the
  tokens of \<open>ls\<close>, with the warning unless a line of \<open>ls\<close> had already ended the scan; it is
  the empty list when the file cannot be opened or raises before its first line.
\<close>

theorem read_failure_keeps_tokens_already_read:
  assumes "fs p = map Line ls @ ReadError # rest"
  shows "get_dependencies fs p =
           (fst (scan_lines (map Line ls)),
            if \<exists>l\<in>set ls. process_line l = Break then [] else [Could_not_read p]) \<and>
         (ls = [] \<longrightarrow> get_dependencies fs p = ([], [Could_not_read p]))"
  using assms by (auto simp: get_dependencies_def scan_lines_failure)

theorem read_failure_keeps_tokens_already_read_witness:
  "get_dependencies (files_on_disk []) (hoon_at [] ''a'') = ([], [Could_not_read (hoon_at [] ''a'')])"
proof -
  have h: "files_on_disk [] (hoon_at [] ''a'') = map Line [] @ ReadError # []"
    by (simp add: files_on_disk_def)
  from read_failure_keeps_tokens_already_read
    [where fs = "files_on_disk []" and p = "hoon_at [] ''a''" and ls = "[]" and rest = "[]", OF h]
  show ?thesis by simp
qed

section \<open>Specifiers of a named import\<close>

lemma set_strip: "set (strip s) \<subseteq> set s"
proof -
  have "set (strip s) \<subseteq> set (dropWhile is_space s)"
    unfolding strip_def using set_dropWhileD by fastforce
  also have "\<dots> \<subseteq> set s"
    using set_dropWhileD by fastforce
  finally show ?thesis .
qed

lemma strip_last: "strip s \<noteq> [] \<Longrightarrow> \<not> is_space (last (strip s))"
proof -
  assume ne: "strip s \<noteq> []"
  define r where "r = dropWhile is_space (rev (dropWhile is_space s))"
  have s: "strip s = rev r" by (simp add: strip_def r_def)
  with ne have "r \<noteq> []" by simp
  then have "\<not> is_space (hd r)" unfolding r_def by (rule hd_dropWhile)
  with \<open>r \<noteq> []\<close> show ?thesis by (simp add: s last_rev)
qed

lemma strip_id: "s = [] \<or> (\<not> is_space (hd s) \<and> \<not> is_space (last s)) \<Longrightarrow> strip s = s"
proof (cases "s = []")
  case True
  then show ?thesis by (simp add: strip_def)
next
  case False
  assume "s = [] \<or> (\<not> is_space (hd s) \<and> \<not> is_space (last s))"
  with False have h: "\<not> is_space (hd s)" and l: "\<not> is_space (last s)" by auto
  from h have "dropWhile is_space s = s" by (simp add: dropWhile_eq_self_iff)
  moreover from l False have "dropWhile is_space (rev s) = rev s"
    by (simp add: dropWhile_eq_self_iff hd_rev)
  ultimately show ?thesis by (simp add: strip_def)
qed

lemma strip_strip: "strip (strip s) = strip s"
  using strip_Nil_or_hd [of s] strip_last [of s] by (intro strip_id) auto

lemma startswith_star: "startswith s ''*'' \<longleftrightarrow> (\<exists>u. s = CHR ''*'' # u)"
  by (cases s) (auto simp: startswith_def)

lemma parse_specifier_plain:
  assumes "\<not> startswith (strip d) ''*''" and "CHR ''='' \<notin> set d"
  shows "parse_specifier d = (if strip d = [] then [] else [strip d])"
proof -
  from assms(2) have "CHR ''='' \<notin> set (strip d)" using set_strip [of d] by auto
  with assms(1) show ?thesis by (simp add: parse_specifier_def Let_def)
qed

lemma parse_specifier_wildcard:
  assumes "strip d = ''*'' @ u" and "CHR ''='' \<notin> set u"
  shows "parse_specifier d = (if u = [] then [] else [u])"
  using assms by (simp add: parse_specifier_def Let_def startswith_star)

lemma parse_specifier_alias:
  assumes "strip d = src @ ''='' @ alias" and "CHR ''='' \<notin> set alias"
  shows "parse_specifier d = (if strip alias = [] then [] else [strip alias])"
proof -
  define d2 where "d2 = (if startswith (strip d) ''*'' then tl (strip d) else strip d)"
  have "\<exists>a. d2 = a @ CHR ''='' # alias"
  proof (cases src)
    case Nil
    with assms(1) show ?thesis by (auto simp: d2_def startswith_star)
  next
    case (Cons x src')
    with assms(1) show ?thesis by (auto simp: d2_def startswith_star)
  qed
  then obtain a where a: "d2 = a @ CHR ''='' # alias" by blast
  then have "CHR ''='' \<in> set d2" by simp
  moreover have "last (split_on CHR ''='' d2) = alias"
    unfolding a using assms(2) by (rule last_split_on_append)
  ultimately show ?thesis
    by (simp add: parse_specifier_def Let_def d2_def [symmetric])
qed

lemma parse_specifier_differs:
  assumes "parse_specifier d \<noteq> spec_token d"
  shows "\<exists>u. strip d = ''*'' @ u \<and> u \<noteq> [] \<and> is_space (hd u) \<and> CHR ''='' \<notin> set u"
proof -
  define d2 where "d2 = (if startswith (strip d) ''*'' then tl (strip d) else strip d)"
  have p: "parse_specifier d =
     (let d3 = (if CHR ''='' \<in> set d2 then strip (last (split_on CHR ''='' d2)) else d2)
      in if d3 \<noteq> [] then [d3] else [])"
    by (simp add: parse_specifier_def Let_def d2_def)
  have q: "spec_token d =
     (let d3 = (if CHR ''='' \<in> set d2 then strip (last (split_on CHR ''='' d2)) else strip d2)
      in if d3 \<noteq> [] then [d3] else [])"
    by (simp add: spec_token_def Let_def d2_def)
  from assms p q have noeq: "CHR ''='' \<notin> set d2" and diff: "strip d2 \<noteq> d2"
    by (auto simp: Let_def split: if_splits)
  have star: "startswith (strip d) ''*''"
  proof (rule ccontr)
    assume "\<not> startswith (strip d) ''*''"
    then have "d2 = strip d" by (simp add: d2_def)
    with diff show False by (simp add: strip_strip)
  qed
  then have sd: "strip d = ''*'' @ d2"
    by (auto simp: d2_def startswith_star)
  from diff have ne: "d2 \<noteq> []" by (auto simp: strip_def)
  have "\<not> is_space (last d2)"
    using strip_last [of d] sd ne by simp
  with diff ne have "is_space (hd d2)"
    using strip_id [of d2] by auto
  with sd ne noeq show ?thesis by blast
qed

lemma named_import_line:
  assumes "split_ws (strip raw) = pfx # specs" and "pfx \<in> {''/+'', ''/-'', ''/#''}"
  shows "process_line raw =
           Continue (concat (map parse_specifier (split_on CHR '','' (join '' '' specs))))"
proof -
  have ne: "strip raw \<noteq> []"
    using assms(1) by (auto simp: split_ws_def)
  then have "\<not> is_space (hd (strip raw))"
    using strip_Nil_or_hd [of raw] by simp
  with assms(1) ne have "prefix pfx (strip raw)"
    by (intro split_ws_hd_prefix)
  with assms(2) have sl: "startswith (strip raw) ''/''"
    by (auto simp: startswith_def prefix_def)
  then have nc: "\<not> startswith (strip raw) ''::''"
    by (auto simp: startswith_slash startswith_colons)
  show ?thesis
    using ne sl nc assms by (auto simp: process_line_def Let_def named_import_def)
qed

text \<open>
  C7 at its failing input. The specifier \<^verbatim>\<open>* foo\<close> yields a token that starts with a space,
  where the specification gives \<^verbatim>\<open>foo\<close>: the specifier is trimmed before the wildcard
  marker is removed and not after. The branch for an assignment form does trim its result,
  as the third line shows.
\<close>

theorem wildcard_before_space_keeps_the_space:
  "process_line ''/+  * foo'' = Continue ['' foo''] \<and>
   spec_token ''* foo'' = [''foo''] \<and>
   process_line ''/+  *foo= bar'' = Continue [''bar'']"
  by code_simp

section \<open>Dependency resolution\<close>

lemma keys_dict_set: "set (keys (dict_set d k v)) = insert k (set (keys d))"
  by (induction d k v rule: dict_set.induct) (auto simp: keys_def)

lemma dict_set_fresh: "k \<notin> set (keys d) \<Longrightarrow> dict_set d k v = d @ [(k, v)]"
  by (induction d k v rule: dict_set.induct) (auto simp: keys_def)

lemma distinct_dict_set: "distinct (keys d) \<Longrightarrow> distinct (keys (dict_set d k v))"
proof (induction d k v rule: dict_set.induct)
  case (1 k v)
  show ?case by (simp add: keys_def)
next
  case (2 k' v' kvs k v)
  have "set (map fst (dict_set kvs k v)) = insert k (set (map fst kvs))"
    using keys_dict_set [of kvs k v] by (simp add: keys_def)
  with 2 show ?case by (auto simp: keys_def)
qed

lemma set_dict_set: "set (dict_set d k v) \<subseteq> insert (k, v) (set d)"
  by (induction d k v rule: dict_set.induct) auto

lemma map_of_dict_set: "map_of (dict_set d k v) = (map_of d)(k \<mapsto> v)"
  by (induction d k v rule: dict_set.induct) auto

lemma in_dict_iff: "in_dict k d \<longleftrightarrow> k \<in> set (keys d)"
  by (simp add: in_dict_def)

lemma hd_matches_in_keys: "0 < length (matches dep files) \<Longrightarrow> hd (matches dep files) \<in> set (keys files)"
proof -
  assume "0 < length (matches dep files)"
  then have ne: "matches dep files \<noteq> []" by auto
  then have "hd (matches dep files) \<in> set (matches dep files)" by (rule hd_in_set)
  then show ?thesis by (simp add: matches_def)
qed

lemma last_resort_in_files:
  "fst (last_resort dep dir files) = Some r \<Longrightarrow> r \<in> set (keys files)"
proof -
  assume "fst (last_resort dep dir files) = Some r"
  then have "0 < length (matches dep files) \<and> r = hd (matches dep files)"
    by (auto simp: last_resort_def Let_def split: if_splits)
  then show ?thesis
    using hd_matches_in_keys [of dep files] by blast
qed

lemma resolve_bare_in_files:
  "fst (resolve_bare dep dir files) = Some r \<Longrightarrow> r \<in> set (keys files)"
  using last_resort_in_files [of dep dir files r]
  by (auto simp: resolve_bare_def in_dict_def split: if_splits option.splits)

lemma resolve_dependency_in_files:
  "fst (resolve_dependency dep dir files) = Some r \<Longrightarrow> r \<in> set (keys files)"
  using resolve_bare_in_files
  by (auto simp: resolve_dependency_def in_dict_def split: if_splits)

lemma resolve_deps_in_files:
  "set (fst (resolve_deps S k dir files toks)) \<subseteq> set (keys files)"
proof (induction toks)
  case Nil
  show ?case by simp
next
  case (Cons t toks)
  show ?case
    using Cons resolve_dependency_in_files [of "strip_scan_dir S t" dir files]
    by (auto simp: Let_def split: prod.splits option.splits if_splits)
qed

lemma resolve_deps_none:
  "\<forall>t\<in>set toks. fst (resolve_dependency (strip_scan_dir S t) dir files) = None \<Longrightarrow>
   fst (resolve_deps S k dir files toks) = []"
  by (induction toks) (auto simp: Let_def split: prod.splits option.splits)


lemma hd_filter_split:
  "filter P xs \<noteq> [] \<Longrightarrow> \<exists>pre post. xs = pre @ hd (filter P xs) # post \<and> (\<forall>x\<in>set pre. \<not> P x)"
proof -
  assume "filter P xs \<noteq> []"
  then obtain y ys where y: "filter P xs = y # ys" by (cases "filter P xs") auto
  then obtain us vs where "xs = us @ y # vs" "\<forall>u\<in>set us. \<not> P u"
    unfolding filter_eq_Cons_iff by blast
  with y show ?thesis by auto
qed


lemma strip_scan_dir_other: "\<not> startswith token (S @ ''/'') \<Longrightarrow> strip_scan_dir S token = token"
  by (simp add: strip_scan_dir_def)

lemma strip_scan_dir_bare: "CHR ''/'' \<notin> set t \<Longrightarrow> strip_scan_dir S t = t"
proof (rule strip_scan_dir_other)
  assume n: "CHR ''/'' \<notin> set t"
  show "\<not> startswith t (S @ ''/'')"
  proof
    assume "startswith t (S @ ''/'')"
    then obtain r where "t = (S @ ''/'') @ r" by (auto simp: startswith_def prefix_def)
    with n show False by simp
  qed
qed

lemma fst_resolve_deps:
  "fst (resolve_deps S key dir files toks) =
     concat (map (\<lambda>t. edge_of (fst (resolve_dependency (strip_scan_dir S t) dir files))) toks)"
  by (induction toks) (auto simp: Let_def edge_of_def split: prod.splits option.splits)





text \<open>
  C3, as stated, fails: the same three files, enumerated in two orders, give two different
  targets for the ambiguous import of \<^verbatim>\<open>dep\<close> in \<^verbatim>\<open>main.hoon\<close>.
\<close>

theorem ambiguity_counterexample:
  "set (rev tree_ambiguous) = set tree_ambiguous \<and>
   map_of (fst (build_dependency_graph disk_ambiguous
                  (find_hoon_files ''hoon'' tree_ambiguous) ''hoon'')) ''main'' = Some [''pkg/dep''] \<and>
   map_of (fst (build_dependency_graph disk_ambiguous
                  (find_hoon_files ''hoon'' (rev tree_ambiguous)) ''hoon'')) ''main'' = Some [''other/dep'']"
proof -
  have "map_of (fst (build_dependency_graph disk_ambiguous
                  (find_hoon_files ''hoon'' tree_ambiguous) ''hoon'')) ''main'' = Some [''pkg/dep'']"
    by code_simp
  moreover have "map_of (fst (build_dependency_graph disk_ambiguous
                  (find_hoon_files ''hoon'' (rev tree_ambiguous)) ''hoon'')) ''main'' = Some [''other/dep'']"
    by code_simp
  ultimately show ?thesis by simp
qed

text \<open>
  C3, amended. When the suffix search yields more than one candidate, the resolver emits a
  diagnostic that lists all candidates, in the order of the file map, and selects the first
  of them: the first key of the file map that equals the name or ends with \<^verbatim>\<open>/\<close> and the
  name. The choice is a function of the file map, the order of its keys included; the
  suffix search is reached whenever the same-directory, root and sibling lookups miss.
\<close>
theorem ambiguous_match_takes_first_in_map_order:
  assumes "length (matches dep files) > 1"
  shows "last_resort dep dir files =
           (Some (hd (matches dep files)), [Ambiguous dep dir (matches dep files)]) \<and>
         set (matches dep files) = {k \<in> set (keys files). endswith k (''/'' @ dep) \<or> k = dep} \<and>
         (\<exists>pre post. keys files = pre @ hd (matches dep files) # post \<and>
            (\<forall>k\<in>set pre. \<not> (endswith k (''/'' @ dep) \<or> k = dep))) \<and>
         (\<not> in_dict (same_dir_key dir dep) files \<and> \<not> in_dict dep files \<and>
          (\<forall>sk. sibling_key dir dep = Some sk \<longrightarrow> \<not> in_dict sk files) \<longrightarrow>
          resolve_bare dep dir files = last_resort dep dir files)"
proof -
  have a: "last_resort dep dir files =
           (Some (hd (matches dep files)), [Ambiguous dep dir (matches dep files)])"
    using assms by (simp add: last_resort_def Let_def)
  have b: "set (matches dep files) = {k \<in> set (keys files). endswith k (''/'' @ dep) \<or> k = dep}"
    by (auto simp: matches_def)
  from assms have "matches dep files \<noteq> []" by auto
  then have c: "\<exists>pre post. keys files = pre @ hd (matches dep files) # post \<and>
            (\<forall>k\<in>set pre. \<not> (endswith k (''/'' @ dep) \<or> k = dep))"
    unfolding matches_def by (rule hd_filter_split)
  have d: "resolve_bare dep dir files = last_resort dep dir files"
    if "\<not> in_dict (same_dir_key dir dep) files" "\<not> in_dict dep files"
       "\<forall>sk. sibling_key dir dep = Some sk \<longrightarrow> \<not> in_dict sk files"
    using that by (auto simp: resolve_bare_def split: option.splits)
  from a b c d show ?thesis by blast
qed


theorem ambiguous_match_takes_first_in_map_order_witness:
  "last_resort ''dep'' ''hoon'' (find_hoon_files ''hoon'' tree_ambiguous) =
     (Some ''pkg/dep'', [Ambiguous ''dep'' ''hoon'' [''pkg/dep'', ''other/dep'']])"
proof -
  let ?files = "find_hoon_files ''hoon'' tree_ambiguous"
  have h: "1 < length (matches ''dep'' ?files)" by code_simp
  have m: "matches ''dep'' ?files = [''pkg/dep'', ''other/dep'']" by code_simp
  from ambiguous_match_takes_first_in_map_order
    [where dep = "''dep''" and files = ?files and dir = "''hoon''", OF h]
  have "last_resort ''dep'' ''hoon'' ?files =
          (Some (hd (matches ''dep'' ?files)), [Ambiguous ''dep'' ''hoon'' (matches ''dep'' ?files)])"
    by blast
  then show ?thesis by (simp only: m list.sel)
qed

section \<open>The dependency graph and the manifest\<close>

lemma fst_build_loop_Cons:
  "fst (build_loop S fs files ((fk, p, dir, fn) # items) g) =
   fst (build_loop S fs files items
          (dict_set g fk (fst (resolve_deps S fk dir files (fst (get_dependencies fs p))))))"
  by (simp split: prod.splits)

lemma build_loop_edges:
  "(k, deps) \<in> set (fst (build_loop S fs files items g)) \<Longrightarrow>
   (k, deps) \<in> set g \<or> set deps \<subseteq> set (keys files)"
proof (induction items arbitrary: g)
  case Nil
  then show ?case by simp
next
  case (Cons item items)
  obtain fk p dir fn where item: "item = (fk, p, dir, fn)" by (cases item) auto
  let ?rd = "fst (resolve_deps S fk dir files (fst (get_dependencies fs p)))"
  from Cons.prems have "(k, deps) \<in> set (fst (build_loop S fs files items (dict_set g fk ?rd)))"
    by (simp only: item fst_build_loop_Cons)
  from Cons.IH [OF this] have "(k, deps) \<in> set (dict_set g fk ?rd) \<or> set deps \<subseteq> set (keys files)" .
  then show ?case
    using set_dict_set [of g fk ?rd] resolve_deps_in_files [of S fk dir files "fst (get_dependencies fs p)"]
    by auto
qed

lemma build_loop_distinct:
  "distinct (keys g @ keys items) \<Longrightarrow>
   fst (build_loop S fs files items g) =
     g @ map (\<lambda>(k, p, dir, fn). (k, fst (resolve_deps S k dir files (fst (get_dependencies fs p))))) items"
proof (induction items arbitrary: g)
  case Nil
  show ?case by simp
next
  case (Cons item items)
  obtain fk p dir fn where item: "item = (fk, p, dir, fn)" by (cases item) auto
  let ?rd = "fst (resolve_deps S fk dir files (fst (get_dependencies fs p)))"
  from Cons.prems have fresh: "fk \<notin> set (keys g)" by (auto simp: item keys_def)
  then have ds: "dict_set g fk ?rd = g @ [(fk, ?rd)]" by (rule dict_set_fresh)
  from Cons.prems have "distinct (keys (g @ [(fk, ?rd)]) @ keys items)"
    by (auto simp: item keys_def)
  from Cons.IH [OF this] show ?case
    by (simp add: item ds fst_build_loop_Cons del: build_loop.simps)
qed

lemma map_of_map_keyed:
  "distinct (map fst xs) \<Longrightarrow> (k, v) \<in> set xs \<Longrightarrow>
   map_of (map (\<lambda>(k, v). (k, h k v)) xs) k = Some (h k v)"
  by (induction xs) (auto simp: rev_image_eqI)

lemma find_loop_distinct:
  "distinct (keys files) \<Longrightarrow> distinct (keys (find_loop S rglob files))"
  by (induction rglob arbitrary: files) (auto simp: distinct_dict_set)

lemma find_hoon_files_distinct: "distinct (keys (find_hoon_files S rglob))"
  unfolding find_hoon_files_def by (rule find_loop_distinct) (simp add: keys_def)

lemma find_loop_keys:
  "set (keys (find_loop S rglob files)) = set (keys files) \<union> package_key ` set rglob"
  by (induction rglob arbitrary: files) (auto simp: keys_dict_set)

lemma find_loop_records:
  "(k, p, dir, fn) \<in> set (find_loop S rglob files) \<Longrightarrow>
   (k, p, dir, fn) \<in> set files \<or>
   (p \<in> set rglob \<and> k = package_key p \<and> dir = install_path S p \<and> fn = name p)"
proof (induction rglob arbitrary: files)
  case Nil
  then show ?case by simp
next
  case (Cons hf rglob)
  from Cons.prems Cons.IH [of "dict_set files (package_key hf) (hf, install_path S hf, name hf)"]
  show ?case
    using set_dict_set [of files "package_key hf" "(hf, install_path S hf, name hf)"]
    by auto
qed

lemma find_hoon_files_records:
  "(k, p, dir, fn) \<in> set (find_hoon_files S rglob) \<Longrightarrow>
   p \<in> set rglob \<and> k = package_key p \<and> dir = install_path S p \<and> fn = name p"
  using find_loop_records [of k p dir fn S rglob "[]"] by (simp add: find_hoon_files_def)

lemma graph_get_in_files:
  "set (graph_get (fst (build_dependency_graph fs files S)) k) \<subseteq> set (keys files)"
proof (cases "map_of (fst (build_dependency_graph fs files S)) k")
  case None
  then show ?thesis by (simp add: graph_get_def)
next
  case (Some deps)
  then have "(k, deps) \<in> set (fst (build_dependency_graph fs files S))"
    by (rule map_of_SomeD)
  then have "set deps \<subseteq> set (keys files)"
    using build_loop_edges [of k deps S fs files files "[]"]
    by (simp add: build_dependency_graph_def)
  with Some show ?thesis by (simp add: graph_get_def)
qed

lemma graph_entry:
  assumes "distinct (keys files)" and "(key, p, dir, fn) \<in> set files"
  shows "map_of (fst (build_dependency_graph fs files S)) key =
           Some (fst (resolve_deps S key dir files (fst (get_dependencies fs p))))"
proof -
  let ?h = "\<lambda>k (p, dir, fn). fst (resolve_deps S k dir files (fst (get_dependencies fs p)))"
  have "fst (build_dependency_graph fs files S) =
          [] @ map (\<lambda>(k, p, dir, fn). (k, fst (resolve_deps S k dir files (fst (get_dependencies fs p))))) files"
    unfolding build_dependency_graph_def
    using assms(1) by (intro build_loop_distinct) (simp add: keys_def)
  then have g: "fst (build_dependency_graph fs files S) = map (\<lambda>(k, v). (k, ?h k v)) files"
    by (simp add: case_prod_unfold)
  show ?thesis
    unfolding g using map_of_map_keyed [of files key "(p, dir, fn)" ?h] assms
    by (simp add: keys_def)
qed

lemma pkg_name_package_of: "pkg_name (package_of ws g item) = ws @ ''/'' @ fst item"
  by (cases item) (auto simp: package_of_def)

lemma pkg_dependencies_package_of:
  "pkg_dependencies (package_of ws g item) = map (\<lambda>d. ws @ ''/'' @ d) (graph_get g (fst item))"
  by (cases item) (auto simp: package_of_def)

text \<open>
  C2. For every file map (a dictionary: its keys are distinct), the graph returned by
  \<open>build_dependency_graph\<close> has exactly the keys of the file map, in the same order; every
  target in every adjacency list is a key of the file map; and the entry of a file is the
  list of its resolved tokens, which is the empty list, not a missing entry, when none of
  its tokens resolves.
\<close>
theorem graph_is_total_without_dangling_edges:
  assumes "distinct (keys files)" and "g = fst (build_dependency_graph fs files S)"
  shows "keys g = keys files \<and>
         (\<forall>k deps. (k, deps) \<in> set g \<longrightarrow> set deps \<subseteq> set (keys files)) \<and>
         (\<forall>k p dir fn. (k, p, dir, fn) \<in> set files \<longrightarrow>
            map_of g k = Some (fst (resolve_deps S k dir files (fst (get_dependencies fs p)))) \<and>
            ((\<forall>t\<in>set (fst (get_dependencies fs p)).
                fst (resolve_dependency (strip_scan_dir S t) dir files) = None) \<longrightarrow>
             map_of g k = Some []))"
proof -
  let ?h = "\<lambda>k (p, dir, fn). fst (resolve_deps S k dir files (fst (get_dependencies fs p)))"
  have "g = [] @ map (\<lambda>(k, p, dir, fn). (k, fst (resolve_deps S k dir files (fst (get_dependencies fs p))))) files"
    unfolding assms(2) build_dependency_graph_def
    using assms(1) by (intro build_loop_distinct) (simp add: keys_def)
  then have g: "g = map (\<lambda>(k, v). (k, ?h k v)) files"
    by (simp add: case_prod_unfold)
  have k: "keys g = keys files"
    unfolding g keys_def by (simp add: case_prod_unfold comp_def)
  have e: "set deps \<subseteq> set (keys files)" if "(k, deps) \<in> set g" for k deps
    using that build_loop_edges [of k deps S fs files files "[]"]
    by (simp add: assms(2) build_dependency_graph_def)
  have m: "map_of g k = Some (fst (resolve_deps S k dir files (fst (get_dependencies fs p))))"
    if "(k, p, dir, fn) \<in> set files" for k p dir fn
    unfolding g using map_of_map_keyed [of files k "(p, dir, fn)" ?h] assms(1) that
    by (simp add: keys_def)
  show ?thesis
    using k e m resolve_deps_none by (simp add: in_mono) 
qed


theorem graph_is_total_without_dangling_edges_witness:
  "keys (fst (build_dependency_graph disk_path_import
                (find_hoon_files ''hoon'' tree_path_import) ''hoon'')) = [''root'', ''b/c''] \<and>
   map_of (fst (build_dependency_graph disk_path_import
                  (find_hoon_files ''hoon'' tree_path_import) ''hoon'')) ''b/c'' = Some []"
proof -
  let ?files = "find_hoon_files ''hoon'' tree_path_import"
  let ?g = "fst (build_dependency_graph disk_path_import ?files ''hoon'')"
  have h1: "distinct (keys ?files)" by (rule find_hoon_files_distinct)
  have h2: "?g = fst (build_dependency_graph disk_path_import ?files ''hoon'')" by simp
  note t = graph_is_total_without_dangling_edges
    [where files = ?files and g = ?g and fs = disk_path_import and S = "''hoon''", OF h1 h2]
  have k: "keys ?files = [''root'', ''b/c'']" by code_simp
  have m: "(''b/c'', hoon_at [''b''] ''c'', ''hoon/b'', ''c.hoon'') \<in> set ?files" by code_simp
  have u: "\<forall>t\<in>set (fst (get_dependencies disk_path_import (hoon_at [''b''] ''c''))).
             fst (resolve_dependency (strip_scan_dir ''hoon'' t) ''hoon/b'' ?files) = None"
    by code_simp
  from t k have "keys ?g = [''root'', ''b/c'']" by simp
  moreover from t m u have "map_of ?g ''b/c'' = Some []" by blast
  ultimately show ?thesis by simp
qed
text \<open>
  C8. In the package records of the emitted manifest there is one record for every
  discovered file, named by the workspace and the file's key, and every name in the
  dependency list of a record is the name of a record of the same manifest.
\<close>
theorem manifest_dependencies_are_packages:
  assumes "pkgs = manifest_packages ws S rglob fs"
  shows "pkg_name ` set pkgs = (\<lambda>p. ws @ ''/'' @ package_key p) ` set rglob \<and>
         (\<forall>r\<in>set pkgs. \<forall>n\<in>set (pkg_dependencies r). \<exists>r'\<in>set pkgs. pkg_name r' = n)"
proof -
  define files where "files = find_hoon_files S rglob"
  define g where "g = fst (build_dependency_graph fs files S)"
  have pkgs: "set pkgs = package_of ws g ` set files"
    by (simp add: assms manifest_packages_def package_records_def files_def g_def Let_def)
  have names: "pkg_name ` set pkgs = (\<lambda>k. ws @ ''/'' @ k) ` set (keys files)"
    by (simp add: pkgs image_image pkg_name_package_of keys_def)
  have "set (keys files) = package_key ` set rglob"
    using find_loop_keys [of S rglob "[]"] by (simp add: files_def find_hoon_files_def keys_def)
  with names have one: "pkg_name ` set pkgs = (\<lambda>p. ws @ ''/'' @ package_key p) ` set rglob"
    by (simp add: image_image)
  have "\<exists>r'\<in>set pkgs. pkg_name r' = n" if "r \<in> set pkgs" "n \<in> set (pkg_dependencies r)" for r n
  proof -
    from that(1) obtain item where "item \<in> set files" "r = package_of ws g item"
      by (auto simp: pkgs)
    with that(2) obtain d where d: "d \<in> set (graph_get g (fst item))" "n = ws @ ''/'' @ d"
      by (auto simp: pkg_dependencies_package_of)
    from d(1) have "d \<in> set (keys files)"
      using graph_get_in_files [of fs files S "fst item"] by (auto simp: g_def)
    then have "n \<in> pkg_name ` set pkgs"
      by (simp add: names d(2))
    then show ?thesis by auto
  qed
  with one show ?thesis by blast
qed


theorem manifest_dependencies_are_packages_witness:
  "pkg_dependencies (manifest_packages ''nockchain'' ''hoon'' tree_path_import disk_path_import ! 1) =
     [''nockchain/b/c''] \<and>
   ''nockchain/b/c'' \<in> pkg_name ` set (manifest_packages ''nockchain'' ''hoon'' tree_path_import disk_path_import)"
proof -
  let ?pkgs = "manifest_packages ''nockchain'' ''hoon'' tree_path_import disk_path_import"
  have h: "?pkgs = manifest_packages ''nockchain'' ''hoon'' tree_path_import disk_path_import"
    by simp
  note t = manifest_dependencies_are_packages
    [where pkgs = ?pkgs and ws = "''nockchain''" and S = "''hoon''" and rglob = tree_path_import
       and fs = disk_path_import, OF h]
  have l: "length ?pkgs = 2" by code_simp
  have d: "pkg_dependencies (?pkgs ! 1) = [''nockchain/b/c'']" by code_simp
  from l have r: "?pkgs ! 1 \<in> set ?pkgs" by simp
  from d have n: "''nockchain/b/c'' \<in> set (pkg_dependencies (?pkgs ! 1))" by simp
  from t r n have "\<exists>r'\<in>set ?pkgs. pkg_name r' = ''nockchain/b/c''" by blast
  then have "''nockchain/b/c'' \<in> pkg_name ` set ?pkgs" by force
  with d show ?thesis by simp
qed

section \<open>The directory handed to the resolver\<close>

lemma join_Cons: "join sep (x # xs) = (if xs = [] then x else x @ sep @ join sep xs)"
  by (cases xs) auto

lemma install_path_form:
  "install_path S p = S \<or> (\<exists>rel. install_path S p = S @ ''/'' @ rel)"
  by (auto simp: install_path_def)

lemma same_dir_key_prefix:
  "dir = S \<or> (\<exists>rel. dir = S @ ''/'' @ rel) \<Longrightarrow> startswith (same_dir_key dir dep) (S @ ''/'')"
  by (auto simp: same_dir_key_def startswith_def)

lemma sibling_key_prefix:
  assumes "CHR ''/'' \<notin> set S" and "dir = S \<or> (\<exists>rel. dir = S @ ''/'' @ rel)"
    and "sibling_key dir dep = Some sk"
  shows "startswith sk (S @ ''/'')"
proof -
  from assms(2) show ?thesis
  proof
    assume "dir = S"
    with assms(1,3) show ?thesis
      by (simp add: sibling_key_def split_on_no_sep)
  next
    assume "\<exists>rel. dir = S @ ''/'' @ rel"
    then obtain rel where "dir = S @ CHR ''/'' # rel" by auto
    with assms(1) have parts: "split_on CHR ''/'' dir = S # split_on CHR ''/'' rel"
      by (simp add: split_on_append_sep)
    have "butlast (S # split_on CHR ''/'' rel) = S # butlast (split_on CHR ''/'' rel)"
      by (simp add: split_on_not_Nil)
    with assms(3) parts have "sk = join ''/'' (S # butlast (split_on CHR ''/'' rel)) @ ''/'' @ dep"
      by (simp add: sibling_key_def Let_def split: if_splits)
    then show ?thesis
      by (simp add: join_Cons startswith_def)
  qed
qed

text \<open>
  C9. For every discovered file the graph builder hands the file's install path to the
  resolver: the graph entry of the file is the resolution of its tokens in that directory,
  and the install path starts with the name of the scanned directory. So in a scan where no
  key starts with that name and a separator, the same-directory key and the sibling key are
  keys of the file map for no name, every bare name resolves as the root-level lookup and
  the suffix search alone resolve it, and the graph entry of a file whose tokens are bare
  names holds exactly what these two rules give.
\<close>
theorem install_path_disables_directory_rules:
  assumes "CHR ''/'' \<notin> set S"
    and "files = find_hoon_files S rglob"
    and "\<forall>k\<in>set (keys files). \<not> startswith k (S @ ''/'')"
    and "(key, p, dir, fn) \<in> set files"
    and "g = fst (build_dependency_graph fs files S)"
    and "tokens = fst (get_dependencies fs p)"
  shows "dir = install_path S p \<and> startswith dir S \<and>
         map_of g key = Some (fst (resolve_deps S key (install_path S p) files tokens)) \<and>
         (\<forall>dep. \<not> in_dict (same_dir_key (install_path S p) dep) files \<and>
                (\<forall>sk. sibling_key (install_path S p) dep = Some sk \<longrightarrow> \<not> in_dict sk files) \<and>
                (CHR ''/'' \<notin> set dep \<longrightarrow>
                   resolve_dependency dep (install_path S p) files =
                     root_or_suffix dep (install_path S p) files)) \<and>
         ((\<forall>t\<in>set tokens. CHR ''/'' \<notin> set t) \<longrightarrow>
            map_of g key =
              Some (concat (map (\<lambda>t. edge_of (fst (root_or_suffix t (install_path S p) files))) tokens)))"
proof -
  have dir: "dir = install_path S p"
    using assms(2,4) find_hoon_files_records by blast
  then have form: "dir = S \<or> (\<exists>rel. dir = S @ ''/'' @ rel)"
    using install_path_form [of S p] by simp
  then have pre: "startswith dir S"
    by (auto simp: startswith_def)
  have dk: "distinct (keys files)"
    unfolding assms(2) by (rule find_hoon_files_distinct)
  have entry: "map_of g key = Some (fst (resolve_deps S key dir files tokens))"
    unfolding assms(5,6) using dk assms(4) by (rule graph_entry)
  have same: "\<not> in_dict (same_dir_key dir dep) files" for dep
    using same_dir_key_prefix [OF form, of dep] assms(3) by (auto simp: in_dict_def)
  have sib: "\<not> in_dict sk files" if "sibling_key dir dep = Some sk" for sk dep
    using sibling_key_prefix [OF assms(1) form that] assms(3) by (auto simp: in_dict_def)
  have bare: "resolve_bare dep dir files = root_or_suffix dep dir files" for dep
    using same [of dep] sib [of dep] by (auto simp: resolve_bare_def root_or_suffix_def split: option.splits)
  have res: "resolve_dependency dep dir files = root_or_suffix dep dir files"
    if "CHR ''/'' \<notin> set dep" for dep
    using that bare by (simp add: resolve_dependency_def)
  have all: "map_of g key = Some (concat (map (\<lambda>t. edge_of (fst (root_or_suffix t dir files))) tokens))"
    if "\<forall>t\<in>set tokens. CHR ''/'' \<notin> set t"
  proof -
    have m: "map (\<lambda>t. edge_of (fst (resolve_dependency (strip_scan_dir S t) dir files))) tokens =
          map (\<lambda>t. edge_of (fst (root_or_suffix t dir files))) tokens"
      using that by (intro map_cong refl) (simp add: strip_scan_dir_bare res)
    have "fst (resolve_deps S key dir files tokens) =
          concat (map (\<lambda>t. edge_of (fst (resolve_dependency (strip_scan_dir S t) dir files))) tokens)"
      by (rule fst_resolve_deps)
    also have "\<dots> = concat (map (\<lambda>t. edge_of (fst (root_or_suffix t dir files))) tokens)"
      by (simp only: m)
    finally show ?thesis
      by (simp only: entry)
  qed
  from dir pre entry same sib res all show ?thesis
    by (simp only: dir [symmetric]) blast
qed


theorem install_path_disables_directory_rules_witness:
  "map_of (fst (build_dependency_graph disk_same_dir
                  (find_hoon_files ''hoon'' tree_same_dir) ''hoon'')) ''a/x'' = Some [''y''] \<and>
   \<not> in_dict (same_dir_key ''hoon/a'' ''y'') (find_hoon_files ''hoon'' tree_same_dir) \<and>
   resolve_dependency ''y'' ''hoon/a'' (find_hoon_files ''hoon'' tree_same_dir) = (Some ''y'', [])"
proof -
  let ?files = "find_hoon_files ''hoon'' tree_same_dir"
  let ?p = "hoon_at [''a''] ''x''"
  let ?g = "fst (build_dependency_graph disk_same_dir ?files ''hoon'')"
  let ?tokens = "fst (get_dependencies disk_same_dir ?p)"
  have h1: "CHR ''/'' \<notin> set ''hoon''" by simp
  have h2: "?files = find_hoon_files ''hoon'' tree_same_dir" by simp
  have h3: "\<forall>k\<in>set (keys ?files). \<not> startswith k (''hoon'' @ ''/'')" by code_simp
  have h4: "(''a/x'', ?p, ''hoon/a'', ''x.hoon'') \<in> set ?files" by code_simp
  have h5: "?g = fst (build_dependency_graph disk_same_dir ?files ''hoon'')" by simp
  have h6: "?tokens = fst (get_dependencies disk_same_dir ?p)" by simp
  note t = install_path_disables_directory_rules
    [where S = "''hoon''" and files = ?files and rglob = tree_same_dir and key = "''a/x''"
       and p = ?p and dir = "''hoon/a''" and fn = "''x.hoon''" and g = ?g
       and fs = disk_same_dir and tokens = ?tokens,
     OF h1 h2 h3 h4 h5 h6]
  have ip: "install_path ''hoon'' ?p = ''hoon/a''" by code_simp
  have bare: "\<forall>t\<in>set ?tokens. CHR ''/'' \<notin> set t" by code_simp
  have ev: "concat (map (\<lambda>t. edge_of (fst (root_or_suffix t (install_path ''hoon'' ?p) ?files))) ?tokens) =
            [''y'']"
    by code_simp
  have rs: "root_or_suffix ''y'' ''hoon/a'' ?files = (Some ''y'', [])" by code_simp
  have y: "CHR ''/'' \<notin> set ''y''" by simp
  from t bare have "map_of ?g ''a/x'' =
      Some (concat (map (\<lambda>t. edge_of (fst (root_or_suffix t (install_path ''hoon'' ?p) ?files))) ?tokens))"
    by blast
  then have a: "map_of ?g ''a/x'' = Some [''y'']"
    by (simp only: ev simp_thms)
  from t have "\<not> in_dict (same_dir_key (install_path ''hoon'' ?p) ''y'') ?files"
    by blast
  then have b: "\<not> in_dict (same_dir_key ''hoon/a'' ''y'') ?files"
    by (simp only: ip simp_thms)
  from t y have "resolve_dependency ''y'' (install_path ''hoon'' ?p) ?files =
      root_or_suffix ''y'' (install_path ''hoon'' ?p) ?files"
    by blast
  then have c: "resolve_dependency ''y'' ''hoon/a'' ?files = (Some ''y'', [])"
    by (simp only: ip rs simp_thms)
  from a b c show ?thesis by blast
qed
text \<open>
  C1 at its failing input. With \<^verbatim>\<open>a/x.hoon\<close>, \<^verbatim>\<open>a/y.hoon\<close> and \<^verbatim>\<open>y.hoon\<close> below a directory
  named \<^verbatim>\<open>hoon\<close>, the import of \<^verbatim>\<open>y\<close> in \<^verbatim>\<open>a/x.hoon\<close> ends at the root-level key \<^verbatim>\<open>y\<close>: the
  graph builder hands the install path \<^verbatim>\<open>hoon/a\<close> to the resolver, and \<^verbatim>\<open>hoon/a/y\<close> is not a
  key. Handed the directory \<^verbatim>\<open>a\<close>, the resolver returns \<^verbatim>\<open>a/y\<close>.
\<close>

theorem same_directory_import_resolves_to_root:
  "(''a/x'', hoon_at [''a''] ''x'', ''hoon/a'', ''x.hoon'') \<in> set (find_hoon_files ''hoon'' tree_same_dir) \<and>
   map_of (fst (build_dependency_graph disk_same_dir
                  (find_hoon_files ''hoon'' tree_same_dir) ''hoon'')) ''a/x'' = Some [''y''] \<and>
   resolve_dependency ''y'' ''a'' (find_hoon_files ''hoon'' tree_same_dir) = (Some ''a/y'', [])"
  by code_simp

end
